theory Spec2Isabelle
  imports Complex_Main
begin

text \<open>
  The track library and the playback coordinator of the offline audio player: the track
  store of \<open>src/services/db.ts\<close> and the handlers and effects of \<open>src/App.tsx\<close>, as
  functions on an explicit state, followed by the properties of the coordinator.
\<close>

section \<open>Data model (src/types.ts)\<close>

text \<open>
  A \<open>Blob\<close> is opaque to the player. Every blob of this application is a \<open>File\<close> picked
  by the user, so a blob is modelled by its file name and its bytes.
\<close>

datatype blob = File (fname: string) (bytes: string)

text \<open>
  \<open>interface Track { id: number; name: string; file: Blob; coverArt?: Blob; video?: Blob }\<close>.
  The fields \<open>id\<close> and \<open>file\<close> are called \<open>id_track\<close> and \<open>file_track\<close> here.
  An absent optional field is \<open>None\<close>.
\<close>

record track =
  id_track :: int
  name :: string
  file_track :: blob
  coverArt :: "blob option"
  video :: "blob option"

section \<open>The track store (src/services/db.ts)\<close>

text \<open>
  The object store \<open>tracks\<close> is created with \<open>keyPath: 'id', autoIncrement: true\<close>. It is
  modelled by its key generator, its rows in ascending key order and the list of requests
  issued so far (oldest first). Whether a request succeeds is decided by the platform; the
  decision is an argument of every operation.
\<close>

datatype outcome = Accept | Reject

datatype request = ReqAdd | ReqGetAll | ReqDelete int | ReqPut int

record store =
  nextKey :: int
  rows :: "track list"
  requests :: "request list"

definition emptyStore :: store where
  "emptyStore = \<lparr>nextKey = 1, rows = [], requests = []\<rparr>"

text \<open>\<open>store.add(track)\<close>: the key generator supplies the id; \<open>onerror\<close> rejects.\<close>

definition addTrackToDB :: "outcome \<Rightarrow> string \<times> blob \<Rightarrow> store \<Rightarrow> (string + int) \<times> store" where
  "addTrackToDB oc trackData d =
     (case oc of
        Reject \<Rightarrow> (Inl ''Error adding track'', d\<lparr>requests := requests d @ [ReqAdd]\<rparr>)
      | Accept \<Rightarrow>
          (Inr (nextKey d),
           d\<lparr>nextKey := nextKey d + 1,
             rows := rows d @ [\<lparr>id_track = nextKey d, name = fst trackData, file_track = snd trackData,
                                coverArt = None, video = None\<rparr>],
             requests := requests d @ [ReqAdd]\<rparr>))"

text \<open>\<open>store.getAll()\<close>.\<close>

definition getAllTracksFromDB :: "outcome \<Rightarrow> store \<Rightarrow> (string + track list) \<times> store" where
  "getAllTracksFromDB oc d =
     (case oc of
        Reject \<Rightarrow> (Inl ''Error getting all tracks'', d\<lparr>requests := requests d @ [ReqGetAll]\<rparr>)
      | Accept \<Rightarrow> (Inr (rows d), d\<lparr>requests := requests d @ [ReqGetAll]\<rparr>))"

text \<open>\<open>store.delete(id)\<close>: succeeds also when no row has the key.\<close>

definition deleteTrackFromDB :: "outcome \<Rightarrow> int \<Rightarrow> store \<Rightarrow> (string + unit) \<times> store" where
  "deleteTrackFromDB oc i d =
     (case oc of
        Reject \<Rightarrow> (Inl ''Error deleting track'', d\<lparr>requests := requests d @ [ReqDelete i]\<rparr>)
      | Accept \<Rightarrow>
          (Inr (),
           d\<lparr>rows := filter (\<lambda>r. id_track r \<noteq> i) (rows d),
             requests := requests d @ [ReqDelete i]\<rparr>))"

text \<open>
  \<open>store.put(track)\<close>: replaces the row with the key of \<open>track\<close>, or inserts it at its place
  in key order when there is none; a key at or above the generator moves the generator.
\<close>

fun putRow :: "track \<Rightarrow> track list \<Rightarrow> track list" where
  "putRow t [] = [t]"
| "putRow t (r # rs) =
     (if id_track r = id_track t then t # rs
      else if id_track t < id_track r then t # r # rs
      else r # putRow t rs)"

definition updateTrackInDB :: "outcome \<Rightarrow> track \<Rightarrow> store \<Rightarrow> (string + unit) \<times> store" where
  "updateTrackInDB oc t d =
     (case oc of
        Reject \<Rightarrow> (Inl ''Error updating track'', d\<lparr>requests := requests d @ [ReqPut (id_track t)]\<rparr>)
      | Accept \<Rightarrow>
          (Inr (),
           d\<lparr>nextKey := (if nextKey d \<le> id_track t then id_track t + 1 else nextKey d),
             rows := putRow t (rows d),
             requests := requests d @ [ReqPut (id_track t)]\<rparr>))"

section \<open>Object URLs\<close>

text \<open>
  \<open>URL.createObjectURL\<close> mints a new non-empty URL for a blob at every call and
  \<open>URL.revokeObjectURL\<close> invalidates one; revoking a URL that is not live does nothing.
  The registry keeps the number of URLs minted and every call made, newest first. A minted
  URL is \<open>blob:\<close> followed by a serial written in unary, which keeps the two facts the
  code relies on: the URL is truthy and differs from every other minted URL. The registry
  is the one of the audio URLs, which only \<open>App\<close> makes; the URLs that other components
  make for cover art and video are not audio handles and are left out.
\<close>

datatype url_event = Created string blob | Revoked string

record registry =
  minted :: nat
  events :: "url_event list"

definition mintUrl :: "nat \<Rightarrow> string" where
  "mintUrl n = ''blob:'' @ replicate n (CHR ''0'')"

definition createObjectURL :: "blob \<Rightarrow> registry \<Rightarrow> string \<times> registry" where
  "createObjectURL b r =
     (mintUrl (minted r),
      r\<lparr>minted := Suc (minted r), events := Created (mintUrl (minted r)) b # events r\<rparr>)"

definition revokeObjectURL :: "string \<Rightarrow> registry \<Rightarrow> registry" where
  "revokeObjectURL u r = r\<lparr>events := Revoked u # events r\<rparr>"

text \<open>The URLs that are live after a history of calls (newest call first).\<close>

fun liveAfter :: "url_event list \<Rightarrow> string list" where
  "liveAfter [] = []"
| "liveAfter (Created u b # es) = liveAfter es @ [u]"
| "liveAfter (Revoked u # es) = removeAll u (liveAfter es)"

text \<open>At most one URL was live after every call of a history.\<close>

fun atMostOneLive :: "url_event list \<Rightarrow> bool" where
  "atMostOneLive [] = True"
| "atMostOneLive (e # es) = (length (liveAfter (e # es)) \<le> 1 \<and> atMostOneLive es)"

text \<open>
  Whenever a URL was created, no other URL was live: what was bound before had been
  revoked by then.
\<close>

fun releasedBeforeRebind :: "url_event list \<Rightarrow> bool" where
  "releasedBeforeRebind [] = True"
| "releasedBeforeRebind (Created u b # es) = (liveAfter es = [] \<and> releasedBeforeRebind es)"
| "releasedBeforeRebind (Revoked u # es) = releasedBeforeRebind es"

section \<open>The audio element\<close>

record audio =
  src :: string
  audio_currentTime :: real
  audio_volume :: real
  paused :: bool

text \<open>\<open>play()\<close> and \<open>pause()\<close>; a rejected \<open>play()\<close> is only logged by the code.\<close>

definition play :: "audio \<Rightarrow> audio" where
  "play a = a\<lparr>paused := False\<rparr>"

definition pause :: "audio \<Rightarrow> audio" where
  "pause a = a\<lparr>paused := True\<rparr>"

section \<open>JavaScript helpers\<close>

text \<open>Truthiness of a \<open>number | null\<close>: \<open>null\<close> and \<open>0\<close> are falsy.\<close>

fun truthy :: "int option \<Rightarrow> bool" where
  "truthy None = False"
| "truthy (Some n) = (n \<noteq> 0)"

text \<open>\<open>Array.prototype.findIndex\<close>: the first index whose element passes, or \<open>-1\<close>.\<close>

fun findIndex :: "('a \<Rightarrow> bool) \<Rightarrow> 'a list \<Rightarrow> int" where
  "findIndex P [] = - 1"
| "findIndex P (x # xs) =
     (if P x then 0 else (let i = findIndex P xs in if i < 0 then - 1 else i + 1))"

text \<open>The remainder operator \<open>%\<close>: the result has the sign of the dividend.\<close>

definition js_rem :: "int \<Rightarrow> int \<Rightarrow> int" where
  "js_rem a b = sgn a * (\<bar>a\<bar> mod \<bar>b\<bar>)"

text \<open>\<open>xs[i]\<close>: \<open>undefined\<close> (here \<open>None\<close>) outside the array.\<close>

definition elemAt :: "'a list \<Rightarrow> int \<Rightarrow> 'a option" where
  "elemAt xs i = (if 0 \<le> i \<and> i < int (length xs) then Some (xs ! nat i) else None)"

text \<open>
  \<open>name.replace(/\.[^/.]+$/, "")\<close>: a final dot followed by one or more characters other
  than \<open>/\<close> and \<open>.\<close> is cut off.
\<close>

definition stripExtension :: "string \<Rightarrow> string" where
  "stripExtension s =
     (let r = rev s;
          ext = takeWhile (\<lambda>c. c \<noteq> CHR ''.'' \<and> c \<noteq> CHR ''/'') r;
          rest = dropWhile (\<lambda>c. c \<noteq> CHR ''.'' \<and> c \<noteq> CHR ''/'') r
      in (case rest of
            [] \<Rightarrow> s
          | c # stem \<Rightarrow> if c = CHR ''.'' \<and> ext \<noteq> [] then rev stem else s))"

section \<open>The App component (src/App.tsx)\<close>

text \<open>
  The file holds two revisions of the component. Their handlers are the same; the later
  one adds Bluetooth output, which is outside the coordinator, and lists \<open>isPlaying\<close>
  among the dependencies of the effect that binds the audio element.
\<close>

datatype revision = Rev1 | Rev2

text \<open>
  The revision of the component, its state variables, the audio element behind
  \<open>audioRef\<close> (\<open>None\<close> while the ref is \<open>null\<close>), and the parts of the platform the handlers
  act on: the object URL registry, the track store and the console.
\<close>

record world =
  revision :: revision
  tracks :: "track list"
  currentTrackId :: "int option"
  isPlaying :: bool
  currentTime :: real
  duration :: real
  volume :: real
  isUploading :: bool
  editingTrackId :: "int option"
  isNowPlayingVisible :: bool
  currentTrackUrl :: string
  audioRef :: "audio option"
  urls :: registry
  db :: store
  console :: "string list"

text \<open>How the promise returned by an \<open>async\<close> handler settles.\<close>

datatype settled = Resolved | Rejected string

subsection \<open>handleFilesSelected\<close>

text \<open>
  Every file of the list starts its own \<open>addTrackToDB\<close>; the requests reach the store in
  the order of the files. \<open>addAll\<close> returns what each promise settles to.
\<close>

fun addAll :: "(blob \<times> outcome) list \<Rightarrow> store \<Rightarrow> (string + track) list \<times> store" where
  "addAll [] d = ([], d)"
| "addAll ((f, oc) # fs) d =
     (let trackData = (stripExtension (fname f), f);
          (res, d1) = addTrackToDB oc trackData d;
          (rest, d2) = addAll fs d1
      in ((case res of
             Inl err \<Rightarrow> Inl err
           | Inr i \<Rightarrow> Inr \<lparr>id_track = i, name = fst trackData, file_track = f,
                           coverArt = None, video = None\<rparr>) # rest, d2))"

text \<open>
  \<open>Promise.all\<close>: the list of all values when every promise is fulfilled, the reason of a
  rejected promise otherwise.
\<close>

fun promiseAll :: "(string + 'a) list \<Rightarrow> string + 'a list" where
  "promiseAll [] = Inr []"
| "promiseAll (Inl err # rs) = Inl err"
| "promiseAll (Inr v # rs) = (case promiseAll rs of Inl err \<Rightarrow> Inl err | Inr vs \<Rightarrow> Inr (v # vs))"

definition handleFilesSelected :: "(blob \<times> outcome) list \<Rightarrow> world \<Rightarrow> world" where
  "handleFilesSelected files w =
     (let w1 = w\<lparr>isUploading := True\<rparr>;
          (results, d) = addAll files (db w1);
          w2 = w1\<lparr>db := d\<rparr>;
          w3 = (case promiseAll results of
                  Inr newTracks \<Rightarrow> w2\<lparr>tracks := tracks w2 @ newTracks\<rparr>
                | Inl err \<Rightarrow> w2\<lparr>console := console w2 @ [''Failed to add tracks: '' @ err]\<rparr>)
      in w3\<lparr>isUploading := False\<rparr>)"

subsection \<open>handleTrackDelete\<close>

definition handleTrackDelete :: "outcome \<Rightarrow> int \<Rightarrow> world \<Rightarrow> settled \<times> world" where
  "handleTrackDelete oc i w =
     (let w1 = (if Some i = currentTrackId w then
                  (let w11 = w\<lparr>isPlaying := False, currentTrackId := None,
                               audioRef := map_option (\<lambda>a. a\<lparr>src := ''''\<rparr>) (audioRef w)\<rparr>;
                       w12 = (if currentTrackUrl w \<noteq> '''' then
                                w11\<lparr>urls := revokeObjectURL (currentTrackUrl w) (urls w11),
                                    currentTrackUrl := ''''\<rparr>
                              else w11)
                   in w12\<lparr>isNowPlayingVisible := False\<rparr>)
                else w);
          (res, d) = deleteTrackFromDB oc i (db w1)
      in (case res of
            Inl err \<Rightarrow> (Rejected err, w1\<lparr>db := d\<rparr>)
          | Inr u \<Rightarrow> (Resolved, w1\<lparr>db := d, tracks := filter (\<lambda>t. id_track t \<noteq> i) (tracks w)\<rparr>)))"

subsection \<open>handlePlayPause and handleTrackSelect\<close>

definition handlePlayPause :: "world \<Rightarrow> world" where
  "handlePlayPause w =
     (if \<not> truthy (currentTrackId w) then w else w\<lparr>isPlaying := \<not> isPlaying w\<rparr>)"

definition handleTrackSelect :: "int \<Rightarrow> world \<Rightarrow> world" where
  "handleTrackSelect i w =
     (case find (\<lambda>t. id_track t = i) (tracks w) of
        None \<Rightarrow> w
      | Some t \<Rightarrow>
          if Some (id_track t) \<noteq> currentTrackId w then
            (let r1 = (if currentTrackUrl w \<noteq> ''''
                       then revokeObjectURL (currentTrackUrl w) (urls w) else urls w);
                 (url, r2) = createObjectURL (file_track t) r1
             in w\<lparr>currentTrackId := Some i, currentTrackUrl := url, isPlaying := True,
                  urls := r2\<rparr>)
          else handlePlayPause w)"

subsection \<open>playNextTrack and playPrevTrack\<close>

text \<open>
  \<open>tracks[k].id\<close> throws when \<open>tracks[k]\<close> is \<open>undefined\<close>; the handler has set no state
  by then, so the state stays as it was.
\<close>

definition playNextTrack :: "world \<Rightarrow> world" where
  "playNextTrack w =
     (if length (tracks w) = 0 then w
      else if length (tracks w) = 1 \<and> currentTrackId w = Some (id_track (tracks w ! 0)) then
        w\<lparr>audioRef := map_option (\<lambda>a. play (a\<lparr>audio_currentTime := 0\<rparr>)) (audioRef w)\<rparr>
      else
        (let currentIndex = findIndex (\<lambda>t. Some (id_track t) = currentTrackId w) (tracks w);
             nextIndex = js_rem (currentIndex + 1) (int (length (tracks w)))
         in (case elemAt (tracks w) nextIndex of
               None \<Rightarrow> w
             | Some t \<Rightarrow> handleTrackSelect (id_track t) w)))"

definition playPrevTrack :: "world \<Rightarrow> world" where
  "playPrevTrack w =
     (if length (tracks w) < 2 then w
      else
        (let currentIndex = findIndex (\<lambda>t. Some (id_track t) = currentTrackId w) (tracks w);
             prevIndex = js_rem (currentIndex - 1 + int (length (tracks w))) (int (length (tracks w)))
         in (case elemAt (tracks w) prevIndex of
               None \<Rightarrow> w
             | Some t \<Rightarrow> handleTrackSelect (id_track t) w)))"

subsection \<open>handleSeek\<close>

definition handleSeek :: "real \<Rightarrow> world \<Rightarrow> world" where
  "handleSeek time w =
     (case audioRef w of
        None \<Rightarrow> w
      | Some a \<Rightarrow> w\<lparr>audioRef := Some (a\<lparr>audio_currentTime := time\<rparr>), currentTime := time\<rparr>)"

subsection \<open>handleEditorSave\<close>

text \<open>The argument \<open>updatedData: { id: number, coverArt?: File, video?: File }\<close>.\<close>

record patch =
  patch_id :: int
  patch_coverArt :: "blob option"
  patch_video :: "blob option"

text \<open>\<open>a || b\<close> on optional blobs: a blob is truthy, \<open>undefined\<close> is not.\<close>

fun orElse :: "blob option \<Rightarrow> blob option \<Rightarrow> blob option" where
  "orElse (Some b) old = Some b"
| "orElse None old = old"

definition handleEditorSave :: "outcome \<Rightarrow> patch \<Rightarrow> world \<Rightarrow> settled \<times> world" where
  "handleEditorSave oc updatedData w =
     (case find (\<lambda>t. id_track t = patch_id updatedData) (tracks w) of
        None \<Rightarrow> (Resolved, w)
      | Some originalTrack \<Rightarrow>
          (let updatedTrack = originalTrack\<lparr>
                 coverArt := orElse (patch_coverArt updatedData) (coverArt originalTrack),
                 video := orElse (patch_video updatedData) (video originalTrack)\<rparr>;
               (res, d) = updateTrackInDB oc updatedTrack (db w)
           in (case res of
                 Inl err \<Rightarrow> (Rejected err, w\<lparr>db := d\<rparr>)
               | Inr u \<Rightarrow>
                   (Resolved,
                    w\<lparr>db := d,
                      tracks := map (\<lambda>t. if id_track t = patch_id updatedData then updatedTrack else t)
                                    (tracks w),
                      editingTrackId := None\<rparr>))))"

subsection \<open>Effects\<close>

text \<open>
  After a handler has changed the state, React runs the effects whose dependencies
  changed: first the cleanup of the effect on \<open>currentTrackUrl\<close>, which revokes the URL of
  the previous render, then in the order of the source the effect on \<open>volume\<close>, the effect
  on \<open>currentTrackUrl\<close> (in the later revision also on \<open>isPlaying\<close>) that binds the audio
  element, and the effect on \<open>isPlaying\<close> and \<open>currentTrackId\<close> that plays or pauses.
  \<open>settle old new\<close> runs them on the state \<open>new\<close> that a handler made of \<open>old\<close>.
\<close>

definition cleanupUrl :: "world \<Rightarrow> world \<Rightarrow> world" where
  "cleanupUrl old w =
     (if currentTrackUrl old \<noteq> currentTrackUrl w \<and> currentTrackUrl old \<noteq> ''''
      then w\<lparr>urls := revokeObjectURL (currentTrackUrl old) (urls w)\<rparr> else w)"

definition effectVolume :: "world \<Rightarrow> world \<Rightarrow> world" where
  "effectVolume old w =
     (if volume old \<noteq> volume w
      then w\<lparr>audioRef := map_option (\<lambda>a. a\<lparr>audio_volume := volume w\<rparr>) (audioRef w)\<rparr> else w)"

definition effectUrl :: "world \<Rightarrow> world \<Rightarrow> world" where
  "effectUrl old w =
     (if (currentTrackUrl old \<noteq> currentTrackUrl w \<or>
          (revision w = Rev2 \<and> isPlaying old \<noteq> isPlaying w)) \<and>
         currentTrackUrl w \<noteq> ''''
      then w\<lparr>audioRef :=
               map_option (\<lambda>a. let a1 = a\<lparr>src := currentTrackUrl w\<rparr>
                               in if isPlaying w then play a1 else a1) (audioRef w)\<rparr>
      else w)"

definition effectPlaying :: "world \<Rightarrow> world \<Rightarrow> world" where
  "effectPlaying old w =
     (if isPlaying old \<noteq> isPlaying w \<or> currentTrackId old \<noteq> currentTrackId w
      then w\<lparr>audioRef :=
               map_option (\<lambda>a. if isPlaying w \<and> truthy (currentTrackId w) then play a else pause a)
                          (audioRef w)\<rparr>
      else w)"

definition settle :: "world \<Rightarrow> world \<Rightarrow> world" where
  "settle old new = effectPlaying old (effectUrl old (effectVolume old (cleanupUrl old new)))"

subsection \<open>Mounting and the intents of the user\<close>

text \<open>
  The state after revision \<open>rv\<close> of \<open>App\<close> is mounted over a store \<open>d\<close>: the initial values of \<open>useState\<close>,
  then the effects of the first render: \<open>loadTracks\<close>, the volume, and the pause of an
  element that plays nothing.
\<close>

definition mount :: "revision \<Rightarrow> outcome \<Rightarrow> store \<Rightarrow> world" where
  "mount rv oc d =
     (let (res, d1) = getAllTracksFromDB oc d
      in \<lparr>revision = rv,
          tracks = (case res of Inl err \<Rightarrow> [] | Inr dbTracks \<Rightarrow> dbTracks),
          currentTrackId = None,
          isPlaying = False,
          currentTime = 0,
          duration = 0,
          volume = 3 / 4,
          isUploading = False,
          editingTrackId = None,
          isNowPlayingVisible = False,
          currentTrackUrl = '''',
          audioRef = Some \<lparr>src = '''', audio_currentTime = 0, audio_volume = 3 / 4, paused = True\<rparr>,
          urls = \<lparr>minted = 0, events = []\<rparr>,
          db = d1,
          console = []\<rparr>)"

text \<open>
  The intents the presentation layer sends, with the decision of the store where one is
  involved. The end of a track is wired to \<open>playNextTrack\<close>, like the next button.
\<close>

datatype intent =
    IngestFiles "(blob \<times> outcome) list"
  | DeleteTrack int outcome
  | EditTrack patch outcome
  | SelectTrack int
  | TogglePlayPause
  | Next
  | Previous
  | TrackEnded
  | Seek real
  | SetVolume real

fun handle :: "intent \<Rightarrow> world \<Rightarrow> world" where
  "handle (IngestFiles files) w = handleFilesSelected files w"
| "handle (DeleteTrack i oc) w = snd (handleTrackDelete oc i w)"
| "handle (EditTrack p oc) w = snd (handleEditorSave oc p w)"
| "handle (SelectTrack i) w = handleTrackSelect i w"
| "handle TogglePlayPause w = handlePlayPause w"
| "handle Next w = playNextTrack w"
| "handle Previous w = playPrevTrack w"
| "handle TrackEnded w = playNextTrack w"
| "handle (Seek t) w = handleSeek t w"
| "handle (SetVolume v) w = w\<lparr>volume := v\<rparr>"

text \<open>One intent, settled: the handler, then the effects.\<close>

definition step :: "intent \<Rightarrow> world \<Rightarrow> world" where
  "step i w = settle w (handle i w)"

fun run :: "world \<Rightarrow> intent list \<Rightarrow> world" where
  "run w [] = w"
| "run w (i # is) = run (step i w) is"

section \<open>The invariant of the coordinator\<close>

text \<open>
  A track is active exactly when an object URL is bound, no URL other than the bound one
  is live, at most one URL was live after every call to the registry, and none was live
  when one was created.
\<close>

definition consistent :: "world \<Rightarrow> bool" where
  "consistent w =
     ((currentTrackId w = None) = (currentTrackUrl w = '''') \<and>
      set (liveAfter (events (urls w))) \<subseteq> {currentTrackUrl w} - {''''} \<and>
      atMostOneLive (events (urls w)) \<and>
      releasedBeforeRebind (events (urls w)))"

section \<open>The library and the store\<close>

text \<open>
  Keys are distinct and below the key generator. This holds of the rows of an object
  store with a key generator, and then of the in-memory library of every reachable state,
  in which the active track is moreover a track of the library.
\<close>

definition keysBelow :: "int \<Rightarrow> track list \<Rightarrow> bool" where
  "keysBelow k ts = (distinct (map id_track ts) \<and> list_all (\<lambda>t. id_track t < k) ts)"

definition storeOk :: "store \<Rightarrow> bool" where
  "storeOk d = keysBelow (nextKey d) (rows d)"

definition libraryOk :: "world \<Rightarrow> bool" where
  "libraryOk w =
     (keysBelow (nextKey (db w)) (tracks w) \<and>
      set_option (currentTrackId w) \<subseteq> id_track ` set (tracks w))"

section \<open>What a batch leaves in the store\<close>

text \<open>
  The records of the files of a batch whose insert the store accepts, with the keys the
  generator hands out from \<open>k\<close> on.
\<close>

fun acceptedRecords :: "int \<Rightarrow> (blob \<times> outcome) list \<Rightarrow> track list" where
  "acceptedRecords k [] = []"
| "acceptedRecords k ((f, Accept) # fs) =
     \<lparr>id_track = k, name = stripExtension (fname f), file_track = f,
      coverArt = None, video = None\<rparr> # acceptedRecords (k + 1) fs"
| "acceptedRecords k ((f, Reject) # fs) = acceptedRecords k fs"

section \<open>Sample data\<close>

definition trackA :: track where
  "trackA = \<lparr>id_track = 1, name = ''a'', file_track = File ''a.mp3'' ''A'',
              coverArt = None, video = None\<rparr>"

definition trackB :: track where
  "trackB = \<lparr>id_track = 2, name = ''b'', file_track = File ''b.mp3'' ''B'',
              coverArt = None, video = None\<rparr>"

definition trackC :: track where
  "trackC = \<lparr>id_track = 3, name = ''c'', file_track = File ''c.mp3'' ''C'',
              coverArt = None, video = None\<rparr>"

definition demoStore :: store where
  "demoStore = \<lparr>nextKey = 4, rows = [trackA, trackB, trackC], requests = []\<rparr>"

definition soloStore :: store where
  "soloStore = \<lparr>nextKey = 2, rows = [trackA], requests = []\<rparr>"

text \<open>The player freshly mounted over the library \<open>[A, B, C]\<close>, and over no track.\<close>

definition idle :: world where
  "idle = mount Rev1 Accept demoStore"

definition idleEmpty :: world where
  "idleEmpty = mount Rev1 Accept emptyStore"

text \<open>The library \<open>[A, B, C]\<close> with \<open>B\<close> playing, then with \<open>C\<close> playing.\<close>

definition playingB :: world where
  "playingB = run idle [SelectTrack 2]"

definition playingC :: world where
  "playingC = step Next playingB"

text \<open>The library \<open>[A]\<close> with \<open>A\<close> playing, in the later revision.\<close>

definition playingSolo :: world where
  "playingSolo = run (mount Rev2 Accept soloStore) [SelectTrack 1]"

text \<open>Three files of which the store refuses the second, and two files it accepts.\<close>

definition batch3 :: "(blob \<times> outcome) list" where
  "batch3 = [(File ''one.mp3'' ''1'', Accept), (File ''two.mp3'' ''2'', Reject),
             (File ''three.mp3'' ''3'', Accept)]"

definition batchOk :: "(blob \<times> outcome) list" where
  "batchOk = [(File ''one.mp3'' ''1'', Accept), (File ''two.mp3'' ''2'', Accept)]"

text \<open>A cover art for an id that no track has, and one for track \<open>A\<close>.\<close>

definition lostPatch :: patch where
  "lostPatch = \<lparr>patch_id = 9, patch_coverArt = Some (File ''art.png'' ''P''), patch_video = None\<rparr>"

definition artPatch :: patch where
  "artPatch = \<lparr>patch_id = 1, patch_coverArt = Some (File ''art.png'' ''P''), patch_video = None\<rparr>"

section \<open>The invariant holds in every reachable state\<close>

lemma mintUrl_nonempty: "mintUrl n \<noteq> ''''"
  by (simp add: mintUrl_def)

lemma atMostOneLive_length: "atMostOneLive es \<Longrightarrow> length (liveAfter es) \<le> Suc 0"
  by (cases es) simp_all

lemma removeAll_short: "length xs \<le> Suc 0 \<Longrightarrow> length (removeAll u xs) \<le> Suc 0"
  using length_removeAll_less_eq [of u xs] by linarith

lemma removeAll_only: "set xs \<subseteq> {u} \<Longrightarrow> removeAll u xs = []"
  by (induction xs) auto

lemma consistent_cleanupUrl: "consistent w \<Longrightarrow> consistent (cleanupUrl old w)"
  by (auto simp: consistent_def cleanupUrl_def revokeObjectURL_def
      atMostOneLive_length removeAll_short)

lemma consistent_effectVolume: "consistent w \<Longrightarrow> consistent (effectVolume old w)"
  by (simp add: consistent_def effectVolume_def)

lemma consistent_effectUrl: "consistent w \<Longrightarrow> consistent (effectUrl old w)"
  by (simp add: consistent_def effectUrl_def)

lemma consistent_effectPlaying: "consistent w \<Longrightarrow> consistent (effectPlaying old w)"
  by (simp add: consistent_def effectPlaying_def)

lemma consistent_settle: "consistent w \<Longrightarrow> consistent (settle old w)"
  by (simp add: settle_def consistent_cleanupUrl consistent_effectVolume
      consistent_effectUrl consistent_effectPlaying)

lemma consistent_handlePlayPause: "consistent w \<Longrightarrow> consistent (handlePlayPause w)"
  by (simp add: consistent_def handlePlayPause_def)

lemma consistent_handleTrackSelect: "consistent w \<Longrightarrow> consistent (handleTrackSelect i w)"
proof (cases "find (\<lambda>t. id_track t = i) (tracks w)")
  case None
  assume "consistent w"
  with None show ?thesis by (simp add: handleTrackSelect_def)
next
  case (Some t)
  assume c: "consistent w"
  show ?thesis
  proof (cases "Some (id_track t) = currentTrackId w")
    case True
    with Some c show ?thesis
      by (simp add: handleTrackSelect_def consistent_handlePlayPause)
  next
    case False
    with Some c show ?thesis
      by (auto simp: handleTrackSelect_def consistent_def createObjectURL_def
          revokeObjectURL_def mintUrl_nonempty Let_def atMostOneLive_length
          removeAll_short removeAll_only)
  qed
qed

lemma consistent_handleFilesSelected:
  "consistent w \<Longrightarrow> consistent (handleFilesSelected files w)"
  by (simp add: consistent_def handleFilesSelected_def Let_def split: prod.splits sum.splits)

lemma consistent_handleTrackDelete:
  "consistent w \<Longrightarrow> consistent (snd (handleTrackDelete oc i w))"
  by (auto simp: consistent_def handleTrackDelete_def Let_def revokeObjectURL_def
      atMostOneLive_length removeAll_short removeAll_only split: prod.splits sum.splits)

lemma consistent_handleEditorSave:
  "consistent w \<Longrightarrow> consistent (snd (handleEditorSave oc p w))"
  by (simp add: consistent_def handleEditorSave_def Let_def
      split: prod.splits sum.splits option.splits)

lemma consistent_playNextTrack: "consistent w \<Longrightarrow> consistent (playNextTrack w)"
  by (auto simp: playNextTrack_def Let_def consistent_handleTrackSelect
      consistent_def [of "w\<lparr>audioRef := x\<rparr>" for x] consistent_def [of w]
      split: option.splits)

lemma consistent_playPrevTrack: "consistent w \<Longrightarrow> consistent (playPrevTrack w)"
  by (simp add: playPrevTrack_def Let_def consistent_handleTrackSelect split: option.splits)

lemma consistent_handleSeek: "consistent w \<Longrightarrow> consistent (handleSeek t w)"
  by (simp add: consistent_def handleSeek_def split: option.splits)

lemma consistent_handle: "consistent w \<Longrightarrow> consistent (handle i w)"
  by (cases i)
    (simp_all add: consistent_handleFilesSelected consistent_handleTrackDelete
      consistent_handleEditorSave consistent_handleTrackSelect consistent_handlePlayPause
      consistent_playNextTrack consistent_playPrevTrack consistent_handleSeek,
      simp add: consistent_def)

lemma consistent_step: "consistent w \<Longrightarrow> consistent (step i w)"
  by (simp add: step_def consistent_settle consistent_handle)

lemma consistent_run: "consistent w \<Longrightarrow> consistent (run w is)"
  by (induction "is" arbitrary: w) (simp_all add: consistent_step)

lemma consistent_mount: "consistent (mount rv oc d)"
  by (simp add: consistent_def mount_def Let_def split: prod.splits)

section \<open>What the effects leave alone\<close>

lemma settle_frame [simp]:
  "tracks (settle old w) = tracks w"
  "currentTrackId (settle old w) = currentTrackId w"
  "isPlaying (settle old w) = isPlaying w"
  "currentTrackUrl (settle old w) = currentTrackUrl w"
  "isUploading (settle old w) = isUploading w"
  "db (settle old w) = db w"
  "console (settle old w) = console w"
  "volume (settle old w) = volume w"
  by (simp_all add: settle_def effectPlaying_def effectUrl_def effectVolume_def cleanupUrl_def)

lemma settle_same:
  "currentTrackUrl w' = currentTrackUrl w \<Longrightarrow> volume w' = volume w \<Longrightarrow>
   isPlaying w' = isPlaying w \<Longrightarrow> currentTrackId w' = currentTrackId w \<Longrightarrow> settle w w' = w'"
  by (simp add: settle_def effectPlaying_def effectUrl_def effectVolume_def cleanupUrl_def)

section \<open>The batch of inserts\<close>

lemma rows_addAll:
  "rows (snd (addAll files d)) = rows d @ acceptedRecords (nextKey d) files"
proof (induction files arbitrary: d)
  case Nil
  show ?case by simp
next
  case (Cons x files)
  obtain f oc where x: "x = (f, oc)" by (cases x)
  show ?case
    by (cases oc) (simp_all add: x addTrackToDB_def Cons.IH split_def Let_def)
qed

lemma requests_addAll:
  "requests (snd (addAll files d)) = requests d @ replicate (length files) ReqAdd"
proof (induction files arbitrary: d)
  case Nil
  show ?case by simp
next
  case (Cons x files)
  obtain f oc where x: "x = (f, oc)" by (cases x)
  show ?case
    by (cases oc) (simp_all add: x addTrackToDB_def Cons.IH split_def Let_def)
qed

lemma promiseAll_addAll_ok:
  "Reject \<notin> snd ` set files \<Longrightarrow>
   promiseAll (fst (addAll files d)) = Inr (acceptedRecords (nextKey d) files)"
proof (induction files arbitrary: d)
  case Nil
  show ?case by simp
next
  case (Cons x files)
  obtain f oc where x: "x = (f, oc)" by (cases x)
  from Cons.prems x have oc: "oc = Accept" and rest: "Reject \<notin> snd ` set files"
    by (cases oc; auto)+
  show ?case
    by (simp add: x oc addTrackToDB_def Cons.IH [OF rest] split_def Let_def)
qed

lemma promiseAll_addAll_fail:
  "Reject \<in> snd ` set files \<Longrightarrow>
   promiseAll (fst (addAll files d)) = Inl ''Error adding track''"
proof (induction files arbitrary: d)
  case Nil
  then show ?case by simp
next
  case (Cons x files)
  obtain f oc where x: "x = (f, oc)" by (cases x)
  show ?case
  proof (cases oc)
    case Reject
    then show ?thesis by (simp add: x addTrackToDB_def split_def Let_def)
  next
    case Accept
    with Cons.prems x have "Reject \<in> snd ` set files" by auto
    from Cons.IH [OF this] show ?thesis
      by (simp add: x Accept addTrackToDB_def split_def Let_def)
  qed
qed

section \<open>Looking tracks up\<close>

lemma find_absent: "i \<notin> id_track ` set ts \<Longrightarrow> find (\<lambda>t. id_track t = i) ts = None"
  by (induction ts) auto

lemma find_present:
  "i \<in> id_track ` set ts \<Longrightarrow> \<exists>t. find (\<lambda>t. id_track t = i) ts = Some t \<and> id_track t = i"
  by (induction ts) auto

lemma find_id: "find (\<lambda>t. id_track t = i) ts = Some t \<Longrightarrow> id_track t = i"
  by (induction ts) (auto split: if_splits)

lemma find_putRow: "find (\<lambda>r. id_track r = id_track t) (putRow t rs) = Some t"
  by (induction rs) simp_all

lemma find_map_replace:
  "find (\<lambda>t. id_track t = i) ts = Some orig \<Longrightarrow> id_track new = i \<Longrightarrow>
   find (\<lambda>t. id_track t = i) (map (\<lambda>t. if id_track t = i then new else t) ts) = Some new"
  by (induction ts) (auto split: if_splits)

lemma findIndex_first:
  "i < length xs \<Longrightarrow> P (xs ! i) \<Longrightarrow> (\<forall>j<i. \<not> P (xs ! j)) \<Longrightarrow> findIndex P xs = int i"
proof (induction xs arbitrary: i)
  case Nil
  then show ?case by simp
next
  case (Cons x xs)
  show ?case
  proof (cases i)
    case 0
    with Cons.prems show ?thesis by simp
  next
    case (Suc k)
    with Cons.prems have nx: "\<not> P x" by auto
    from Suc Cons.prems have "k < length xs" "P (xs ! k)" "\<forall>j<k. \<not> P (xs ! j)" by auto
    from Cons.IH [OF this] nx Suc show ?thesis by (simp add: Let_def)
  qed
qed

lemma findIndex_none: "(\<forall>x\<in>set xs. \<not> P x) \<Longrightarrow> findIndex P xs = - 1"
  by (induction xs) (simp_all add: Let_def)

lemma findIndex_distinct:
  assumes "distinct (map f xs)" and "i < length xs"
  shows "findIndex (\<lambda>t. Some (f t) = Some (f (xs ! i))) xs = int i"
proof (rule findIndex_first [OF assms(2)])
  show "Some (f (xs ! i)) = Some (f (xs ! i))" by simp
  show "\<forall>j<i. Some (f (xs ! j)) \<noteq> Some (f (xs ! i))"
  proof (intro allI impI)
    fix j assume "j < i"
    with assms(2) have "j < length (map f xs)" "i < length (map f xs)" "j \<noteq> i" by simp_all
    with assms(1) have "map f xs ! j \<noteq> map f xs ! i"
      using nth_eq_iff_index_eq [of "map f xs" j i] by blast
    with \<open>j < i\<close> assms(2) show "Some (f (xs ! j)) \<noteq> Some (f (xs ! i))" by simp
  qed
qed

section \<open>The library of every reachable state\<close>

lemma keysBelow_mono: "keysBelow k ts \<Longrightarrow> k \<le> k' \<Longrightarrow> keysBelow k' ts"
  by (auto simp: keysBelow_def list_all_iff)

lemma keysBelow_filter: "keysBelow k ts \<Longrightarrow> keysBelow k (filter P ts)"
  by (auto simp: keysBelow_def list_all_iff distinct_map_filter)

lemma accepted_from: "list_all (\<lambda>t. k \<le> id_track t) (acceptedRecords k fs)"
proof (induction k fs rule: acceptedRecords.induct)
  case (2 k f fs)
  then show ?case by (auto simp: list_all_iff)
qed simp_all

lemma accepted_keys:
  "keysBelow (k + int (length (acceptedRecords k fs))) (acceptedRecords k fs)"
proof (induction k fs rule: acceptedRecords.induct)
  case (1 k)
  show ?case by (simp add: keysBelow_def)
next
  case (2 k f fs)
  have "k \<notin> id_track ` set (acceptedRecords (k + 1) fs)"
    using accepted_from [of "k + 1" fs] by (auto simp: list_all_iff)
  with 2 show ?case
    by (auto simp: keysBelow_def list_all_iff add.assoc)
next
  case (3 k f fs)
  then show ?case by simp
qed

lemma keysBelow_append:
  "keysBelow k ts \<Longrightarrow> keysBelow k' us \<Longrightarrow> list_all (\<lambda>t. k \<le> id_track t) us \<Longrightarrow> k \<le> k' \<Longrightarrow>
   keysBelow k' (ts @ us)"
  by (fastforce simp: keysBelow_def list_all_iff)

lemma nextKey_addAll:
  "nextKey (snd (addAll files d)) = nextKey d + int (length (acceptedRecords (nextKey d) files))"
proof (induction files arbitrary: d)
  case Nil
  show ?case by simp
next
  case (Cons x files)
  obtain f oc where x: "x = (f, oc)" by (cases x)
  show ?case
    by (cases oc) (simp_all add: x addTrackToDB_def Cons.IH split_def Let_def)
qed

lemma libraryOk_handleFilesSelected:
  assumes "libraryOk w"
  shows "libraryOk (handleFilesSelected files w)"
proof -
  let ?k = "nextKey (db w)"
  let ?new = "acceptedRecords ?k files"
  have k: "nextKey (db (handleFilesSelected files w)) = ?k + int (length ?new)"
    using nextKey_addAll [of files "db w"]
    by (simp add: handleFilesSelected_def Let_def split_def split: sum.splits)
  have c: "currentTrackId (handleFilesSelected files w) = currentTrackId w"
    by (simp add: handleFilesSelected_def Let_def split_def split: sum.splits)
  have t: "tracks (handleFilesSelected files w) = tracks w \<or>
           tracks (handleFilesSelected files w) = tracks w @ ?new"
    using promiseAll_addAll_ok [of files "db w"] promiseAll_addAll_fail [of files "db w"]
    by (cases "Reject \<in> snd ` set files")
      (simp_all add: handleFilesSelected_def Let_def split_def)
  from assms have b: "keysBelow ?k (tracks w)" by (simp add: libraryOk_def)
  have b1: "keysBelow (?k + int (length ?new)) (tracks w)"
    using keysBelow_mono [OF b] by simp
  have b2: "keysBelow (?k + int (length ?new)) (tracks w @ ?new)"
    using keysBelow_append [OF b accepted_keys accepted_from] by simp
  from t show ?thesis
  proof
    assume "tracks (handleFilesSelected files w) = tracks w"
    with assms k c b1 show ?thesis by (simp add: libraryOk_def)
  next
    assume "tracks (handleFilesSelected files w) = tracks w @ ?new"
    with assms k c b2 show ?thesis by (auto simp: libraryOk_def split: option.splits)
  qed
qed

lemma libraryOk_handleTrackDelete:
  "libraryOk w \<Longrightarrow> libraryOk (snd (handleTrackDelete oc i w))"
  by (cases oc)
    (auto simp: libraryOk_def handleTrackDelete_def deleteTrackFromDB_def Let_def
      keysBelow_filter split: option.splits)

lemma keysBelow_map_ids:
  "keysBelow k ts \<Longrightarrow> map id_track us = map id_track ts \<Longrightarrow> keysBelow k us"
proof -
  assume a: "keysBelow k ts" and m: "map id_track us = map id_track ts"
  have "list_all (\<lambda>t. id_track t < k) us = list_all (\<lambda>i. i < k) (map id_track us)"
    by (simp add: list_all_iff)
  also have "\<dots> = list_all (\<lambda>t. id_track t < k) ts"
    by (simp add: m list_all_iff)
  finally show ?thesis using a m by (simp add: keysBelow_def)
qed

lemma map_replace_ids:
  "id_track new = i \<Longrightarrow>
   map id_track (map (\<lambda>t. if id_track t = i then new else t) ts) = map id_track ts"
  by (induction ts) auto

lemma filter_map_replace:
  "id_track new = i \<Longrightarrow>
   filter (\<lambda>t. id_track t \<noteq> i) (map (\<lambda>t. if id_track t = i then new else t) ts) =
   filter (\<lambda>t. id_track t \<noteq> i) ts"
  by (induction ts) auto

lemma libraryOk_handleEditorSave:
  assumes "libraryOk w"
  shows "libraryOk (snd (handleEditorSave oc p w))"
proof (cases "find (\<lambda>t. id_track t = patch_id p) (tracks w)")
  case None
  with assms show ?thesis by (simp add: handleEditorSave_def)
next
  case (Some orig)
  let ?new = "orig\<lparr>coverArt := orElse (patch_coverArt p) (coverArt orig),
                     video := orElse (patch_video p) (video orig)\<rparr>"
  have idn: "id_track ?new = patch_id p" using find_id [OF Some] by simp
  from assms have b: "keysBelow (nextKey (db w)) (tracks w)" by (simp add: libraryOk_def)
  show ?thesis
  proof (cases oc)
    case Reject
    with Some assms show ?thesis
      by (simp add: handleEditorSave_def updateTrackInDB_def Let_def libraryOk_def)
  next
    case Accept
    let ?ts = "map (\<lambda>t. if id_track t = patch_id p then ?new else t) (tracks w)"
    have m: "map id_track ?ts = map id_track (tracks w)"
      using map_replace_ids [OF idn] .
    have "keysBelow (nextKey (db w)) ?ts" using keysBelow_map_ids [OF b m] .
    then have kb: "keysBelow (if nextKey (db w) \<le> patch_id p then patch_id p + 1 else nextKey (db w)) ?ts"
      by (rule keysBelow_mono) simp
    have im: "id_track ` set ?ts = id_track ` set (tracks w)"
      using m by (metis list.set_map)
    from assms have so: "set_option (currentTrackId w) \<subseteq> id_track ` set ?ts"
      unfolding im by (simp add: libraryOk_def)
    have t: "tracks (snd (handleEditorSave oc p w)) = ?ts"
      and k: "nextKey (db (snd (handleEditorSave oc p w))) =
        (if nextKey (db w) \<le> patch_id p then patch_id p + 1 else nextKey (db w))"
      and c: "currentTrackId (snd (handleEditorSave oc p w)) = currentTrackId w"
      using Some Accept idn
      by (simp_all add: handleEditorSave_def updateTrackInDB_def Let_def)
    show ?thesis unfolding libraryOk_def t k c using kb so by blast
  qed
qed

lemma libraryOk_handlePlayPause: "libraryOk w \<Longrightarrow> libraryOk (handlePlayPause w)"
  by (simp add: libraryOk_def handlePlayPause_def)

lemma libraryOk_handleTrackSelect: "libraryOk w \<Longrightarrow> libraryOk (handleTrackSelect i w)"
proof (cases "find (\<lambda>t. id_track t = i) (tracks w)")
  case None
  assume "libraryOk w"
  with None show ?thesis by (simp add: handleTrackSelect_def)
next
  case (Some t)
  assume l: "libraryOk w"
  from Some have "t \<in> set (tracks w)" "id_track t = i"
    by (auto simp: find_Some_iff)
  then have "i \<in> id_track ` set (tracks w)" by auto
  with Some l show ?thesis
    by (simp add: handleTrackSelect_def libraryOk_handlePlayPause Let_def split_def)
      (simp add: libraryOk_def)
qed

lemma libraryOk_playNextTrack: "libraryOk w \<Longrightarrow> libraryOk (playNextTrack w)"
  by (auto simp: playNextTrack_def Let_def libraryOk_handleTrackSelect
      libraryOk_def [of "w\<lparr>audioRef := x\<rparr>" for x] libraryOk_def [of w]
      split: option.splits)

lemma libraryOk_playPrevTrack: "libraryOk w \<Longrightarrow> libraryOk (playPrevTrack w)"
  by (simp add: playPrevTrack_def Let_def libraryOk_handleTrackSelect split: option.splits)

lemma libraryOk_handleSeek: "libraryOk w \<Longrightarrow> libraryOk (handleSeek t w)"
  by (simp add: libraryOk_def handleSeek_def split: option.splits)

lemma libraryOk_handle: "libraryOk w \<Longrightarrow> libraryOk (handle i w)"
  by (cases i)
    (simp_all add: libraryOk_handleFilesSelected libraryOk_handleTrackDelete
      libraryOk_handleEditorSave libraryOk_handleTrackSelect libraryOk_handlePlayPause
      libraryOk_playNextTrack libraryOk_playPrevTrack libraryOk_handleSeek,
      simp add: libraryOk_def)

lemma libraryOk_settle: "libraryOk w \<Longrightarrow> libraryOk (settle old w)"
  by (simp add: libraryOk_def)

lemma libraryOk_step: "libraryOk w \<Longrightarrow> libraryOk (step i w)"
  by (simp add: step_def libraryOk_settle libraryOk_handle)

lemma libraryOk_run: "libraryOk w \<Longrightarrow> libraryOk (run w is)"
  by (induction "is" arbitrary: w) (simp_all add: libraryOk_step)

lemma libraryOk_mount: "storeOk d \<Longrightarrow> libraryOk (mount rv oc d)"
  by (cases oc)
    (simp_all add: libraryOk_def storeOk_def mount_def getAllTracksFromDB_def keysBelow_def)

lemma reachable_library:
  assumes "storeOk d"
  shows "distinct (map id_track (tracks (run (mount rv oc d) is)))"
    and "currentTrackId (run (mount rv oc d) is) = Some x \<Longrightarrow>
         x \<in> id_track ` set (tracks (run (mount rv oc d) is))"
  using libraryOk_run [OF libraryOk_mount [OF assms], of rv oc "is"]
  by (auto simp: libraryOk_def keysBelow_def)

section \<open>Index arithmetic of the circular playlist\<close>

lemma js_rem_mod: "0 \<le> a \<Longrightarrow> 0 < b \<Longrightarrow> js_rem a b = a mod b"
  by (cases "a = 0") (simp_all add: js_rem_def)

lemma elemAt_nth: "0 \<le> k \<Longrightarrow> k < int (length xs) \<Longrightarrow> elemAt xs k = Some (xs ! nat k)"
  by (simp add: elemAt_def)

lemma next_index:
  fixes i n :: nat
  assumes "2 \<le> n" and "i < n"
  shows "nat ((int i + 1) mod int n) < n \<and> nat ((int i + 1) mod int n) \<noteq> i"
proof (cases "Suc i = n")
  case True
  then have "int i + 1 = int n" by auto
  then have "(int i + 1) mod int n = 0" by (simp only: mod_self)
  with assms True show ?thesis by auto
next
  case False
  with assms have "int i + 1 < int n" by simp
  then have "(int i + 1) mod int n = int i + 1" by simp
  moreover have "nat (int i + 1) = Suc i" by simp
  ultimately show ?thesis using assms False by (simp only:) auto
qed

lemma prev_index:
  fixes i n :: nat
  assumes "2 \<le> n" and "i < n"
  shows "nat ((int i - 1 + int n) mod int n) < n \<and> nat ((int i - 1 + int n) mod int n) \<noteq> i"
proof (cases i)
  case 0
  have "(int n - 1) mod int n = int n - 1"
    by (rule mod_pos_pos_trivial) (use assms in simp_all)
  with 0 assms show ?thesis by auto
next
  case (Suc k)
  have "(int i - 1 + int n) mod int n = (int i - 1) mod int n" by simp
  also have "\<dots> = int k" using Suc assms by simp
  finally show ?thesis using Suc assms by simp
qed

lemma unset_prev: "2 \<le> (n::nat) \<Longrightarrow> nat ((- 1 - 1 + int n) mod int n) = n - 2"
proof -
  assume n: "2 \<le> n"
  have "(- 1 - 1 + int n) = (int n - 2)" by simp
  moreover have "(int n - 2) mod int n = int n - 2"
    by (rule mod_pos_pos_trivial) (use n in simp_all)
  ultimately have "(- 1 - 1 + int n) mod int n = int n - 2" by (simp only:)
  then show ?thesis using n by (simp only:)
qed

lemma select_other:
  assumes "j < length (tracks w)" and "Some (id_track (tracks w ! j)) \<noteq> currentTrackId w"
  shows "currentTrackId (handleTrackSelect (id_track (tracks w ! j)) w) = Some (id_track (tracks w ! j)) \<and>
         isPlaying (handleTrackSelect (id_track (tracks w ! j)) w)"
proof -
  from assms(1) have "id_track (tracks w ! j) \<in> id_track ` set (tracks w)" by simp
  from find_present [OF this] obtain t
    where "find (\<lambda>t. id_track t = id_track (tracks w ! j)) (tracks w) = Some t"
      and "id_track t = id_track (tracks w ! j)" by blast
  with assms(2) show ?thesis
    by (simp add: handleTrackSelect_def Let_def split_def)
qed

lemma next_at:
  assumes n: "2 \<le> length (tracks w)"
    and k: "findIndex (\<lambda>t. Some (id_track t) = currentTrackId w) (tracks w) = k" "- 1 \<le> k"
  shows "playNextTrack w =
         handleTrackSelect (id_track (tracks w ! nat ((k + 1) mod int (length (tracks w))))) w"
proof -
  let ?n = "int (length (tracks w))"
  have n2: "2 \<le> ?n" using n by linarith
  then have npos: "0 < ?n" by linarith
  have ne: "tracks w \<noteq> []" "length (tracks w) \<noteq> Suc 0" "\<not> length (tracks w) < 2"
    using n by auto
  have "0 \<le> (k + 1) mod ?n" "(k + 1) mod ?n < ?n"
    by (rule pos_mod_sign [OF npos], rule pos_mod_bound [OF npos])
  then have "elemAt (tracks w) ((k + 1) mod ?n) = Some (tracks w ! nat ((k + 1) mod ?n))"
    by (rule elemAt_nth)
  moreover have "js_rem (k + 1) ?n = (k + 1) mod ?n"
    using n2 k(2) by (intro js_rem_mod) linarith+
  ultimately show ?thesis using ne k(1) by (simp add: playNextTrack_def Let_def)
qed

lemma prev_at:
  assumes n: "2 \<le> length (tracks w)"
    and k: "findIndex (\<lambda>t. Some (id_track t) = currentTrackId w) (tracks w) = k" "- 1 \<le> k"
  shows "playPrevTrack w =
         handleTrackSelect (id_track (tracks w ! nat ((k - 1 + int (length (tracks w))) mod int (length (tracks w))))) w"
proof -
  let ?n = "int (length (tracks w))"
  have n2: "2 \<le> ?n" using n by linarith
  then have npos: "0 < ?n" by linarith
  have ne: "tracks w \<noteq> []" "length (tracks w) \<noteq> Suc 0" "\<not> length (tracks w) < 2"
    using n by auto
  have "0 \<le> (k - 1 + ?n) mod ?n" "(k - 1 + ?n) mod ?n < ?n"
    by (rule pos_mod_sign [OF npos], rule pos_mod_bound [OF npos])
  then have "elemAt (tracks w) ((k - 1 + ?n) mod ?n) = Some (tracks w ! nat ((k - 1 + ?n) mod ?n))"
    by (rule elemAt_nth)
  moreover have "js_rem (k - 1 + ?n) ?n = (k - 1 + ?n) mod ?n"
    using n2 k(2) by (intro js_rem_mod) linarith+
  ultimately show ?thesis using ne k(1) by (simp add: playPrevTrack_def Let_def)
qed

section \<open>Claims\<close>

text \<open>
  C1. For every sequence of intents sent to a freshly mounted player, in particular every
  sequence of \<open>selectTrack\<close> and \<open>deleteTrack\<close> intents, at most one audio object URL is
  live after every single call to the URL registry, and whenever a URL is created for a
  newly selected track the URL bound before has been revoked already, so two unreleased
  audio handles never coexist.
\<close>

theorem at_most_one_live_audio_handle:
  "atMostOneLive (events (urls (run (mount rv oc d) is))) \<and>
   releasedBeforeRebind (events (urls (run (mount rv oc d) is))) \<and>
   length (liveAfter (events (urls (run (mount rv oc d) is)))) \<le> 1"
  using consistent_run [OF consistent_mount, of rv oc d "is"]
  by (simp add: consistent_def atMostOneLive_length)

theorem at_most_one_live_audio_handle_witness:
  "atMostOneLive (events (urls (run (mount Rev1 Accept demoStore)
       [SelectTrack 1, SelectTrack 2, DeleteTrack 2 Accept, SelectTrack 3]))) \<and>
   liveAfter (events (urls (run (mount Rev1 Accept demoStore)
       [SelectTrack 1, SelectTrack 2, DeleteTrack 2 Accept, SelectTrack 3]))) = [''blob:00'']"
proof -
  have "liveAfter (events (urls (run (mount Rev1 Accept demoStore)
       [SelectTrack 1, SelectTrack 2, DeleteTrack 2 Accept, SelectTrack 3]))) = [''blob:00'']"
    by code_simp
  then show ?thesis
    using at_most_one_live_audio_handle [of Rev1 Accept demoStore
        "[SelectTrack 1, SelectTrack 2, DeleteTrack 2 Accept, SelectTrack 3]"]
    by simp
qed

text \<open>
  C2. After every intent of any sequence (select, toggle, next, previous, track end,
  delete, ingest, edit, seek, volume) has settled, \<open>currentTrackId\<close> is non-null exactly
  when \<open>currentTrackUrl\<close> is a non-empty string.
\<close>

theorem active_id_iff_active_handle:
  "(currentTrackId (run (mount rv oc d) is) \<noteq> None) =
   (currentTrackUrl (run (mount rv oc d) is) \<noteq> '''')"
  using consistent_run [OF consistent_mount, of rv oc d "is"]
  by (simp add: consistent_def)

theorem active_id_iff_active_handle_witness:
  "currentTrackId (run (mount Rev1 Accept demoStore) [SelectTrack 1, TogglePlayPause, Next]) = Some 2 \<and>
   currentTrackUrl (run (mount Rev1 Accept demoStore) [SelectTrack 1, TogglePlayPause, Next]) \<noteq> ''''"
proof -
  have "currentTrackId (run (mount Rev1 Accept demoStore) [SelectTrack 1, TogglePlayPause, Next]) = Some 2"
    by code_simp
  then show ?thesis
    using active_id_iff_active_handle [of Rev1 Accept demoStore "[SelectTrack 1, TogglePlayPause, Next]"]
    by simp
qed

text \<open>
  C3, counterexample. A batch of three files whose second insert the store refuses adds
  no record to the in-memory library, although the store keeps the two records it
  accepted: \<open>Promise.all\<close> rejects and \<open>setTracks\<close> is never reached.
\<close>

theorem partial_ingest_counterexample:
  "tracks (step (IngestFiles batch3) idleEmpty) = [] \<and>
   length (tracks (step (IngestFiles batch3) idleEmpty)) \<noteq> length (tracks idleEmpty) + 2 \<and>
   map name (rows (db (step (IngestFiles batch3) idleEmpty))) = [''one'', ''three'']"
  by code_simp

text \<open>
  C3, as the code has it. When the store refuses the insert of some file of a batch, the
  ingest completes with the in-memory library unchanged, one failure written to the
  console and \<open>isUploading\<close> reset, while the store holds the record of every file it
  accepted. When the store accepts every insert, the records of all files are appended to
  the library in the order of the batch.
\<close>

theorem partial_ingest_keeps_library_unchanged:
  "(Reject \<in> snd ` set files \<longrightarrow>
      tracks (step (IngestFiles files) w) = tracks w \<and>
      console (step (IngestFiles files) w) = console w @ [''Failed to add tracks: Error adding track''] \<and>
      isUploading (step (IngestFiles files) w) = False \<and>
      rows (db (step (IngestFiles files) w)) = rows (db w) @ acceptedRecords (nextKey (db w)) files) \<and>
   (Reject \<notin> snd ` set files \<longrightarrow>
      tracks (step (IngestFiles files) w) = tracks w @ acceptedRecords (nextKey (db w)) files \<and>
      console (step (IngestFiles files) w) = console w \<and>
      isUploading (step (IngestFiles files) w) = False \<and>
      rows (db (step (IngestFiles files) w)) = rows (db w) @ acceptedRecords (nextKey (db w)) files)"
proof -
  have r: "rows (db (step (IngestFiles files) w)) = rows (db w) @ acceptedRecords (nextKey (db w)) files"
    using rows_addAll [of files "db w"]
    by (simp add: step_def handleFilesSelected_def Let_def split_def split: sum.splits)
  have u: "isUploading (step (IngestFiles files) w) = False"
    by (simp add: step_def handleFilesSelected_def Let_def split_def split: sum.splits)
  have f: "Reject \<in> snd ` set files \<Longrightarrow>
      tracks (step (IngestFiles files) w) = tracks w \<and>
      console (step (IngestFiles files) w) = console w @ [''Failed to add tracks: Error adding track'']"
    using promiseAll_addAll_fail [of files "db w"]
    by (simp add: step_def handleFilesSelected_def Let_def split_def split: sum.splits)
  have s: "Reject \<notin> snd ` set files \<Longrightarrow>
      tracks (step (IngestFiles files) w) = tracks w @ acceptedRecords (nextKey (db w)) files \<and>
      console (step (IngestFiles files) w) = console w"
    using promiseAll_addAll_ok [of files "db w"]
    by (simp add: step_def handleFilesSelected_def Let_def split_def split: sum.splits)
  from r u f s show ?thesis by blast
qed

theorem partial_ingest_witness:
  "tracks (step (IngestFiles batch3) idle) = [trackA, trackB, trackC] \<and>
   console (step (IngestFiles batch3) idle) =
     [''Failed to add tracks: Error adding track''] \<and>
   length (rows (db (step (IngestFiles batch3) idle))) = 5 \<and>
   length (tracks (step (IngestFiles batchOk) idle)) = 5"
proof -
  have a: "Reject \<in> snd ` set batch3" by (simp add: batch3_def)
  have b: "Reject \<notin> snd ` set batchOk" by (simp add: batchOk_def)
  have c: "tracks idle = [trackA, trackB, trackC]"
    "console idle = []"
    "rows (db idle) = [trackA, trackB, trackC]"
    by (simp_all add: idle_def mount_def demoStore_def getAllTracksFromDB_def)
  have d: "length (acceptedRecords (nextKey (db idle)) batch3) = 2"
    "length (acceptedRecords (nextKey (db idle)) batchOk) = 2"
    by (simp_all add: batch3_def batchOk_def)
  show ?thesis
    using partial_ingest_keeps_library_unchanged [of batch3 idle]
      partial_ingest_keeps_library_unchanged [of batchOk idle] a b c d
    by simp
qed

text \<open>
  C4, counterexample. An edit for an id that no track of the library has does not fail:
  the promise of \<open>handleEditorSave\<close> is fulfilled and nothing is reported.
\<close>

theorem edit_of_absent_id_counterexample:
  "fst (handleEditorSave Accept lostPatch idle) = Resolved \<and>
   console (step (EditTrack lostPatch Accept) idle) = []"
  by code_simp

text \<open>
  C4, as the code has it. For every id not present in the in-memory library,
  \<open>handleEditorSave\<close> returns without an error and before any store operation is issued:
  the store, with its list of requests, and the in-memory library are unchanged, and so is
  the whole state.
\<close>

theorem edit_of_absent_id_is_silent:
  "patch_id p \<notin> id_track ` set (tracks w) \<Longrightarrow>
   handleEditorSave oc p w = (Resolved, w) \<and> step (EditTrack p oc) w = w"
  by (simp add: handleEditorSave_def step_def find_absent settle_same)

theorem edit_of_absent_id_witness:
  "handleEditorSave Accept lostPatch idle = (Resolved, idle) \<and>
   step (EditTrack lostPatch Accept) idle = idle"
proof -
  have "patch_id lostPatch \<notin> id_track ` set (tracks idle)"
    by code_simp
  then show ?thesis by (rule edit_of_absent_id_is_silent)
qed

text \<open>
  C5. In a library of at least two tracks with distinct ids whose active track is at
  index \<open>i\<close>, next selects the track at index \<open>(i + 1) mod count\<close> and previous the track
  at index \<open>(i - 1 + count) mod count\<close>, which becomes the active track and plays. With no
  track, next and previous change nothing; with fewer than two tracks previous changes
  nothing.
\<close>

theorem circular_advance:
  "(tracks w = [] \<longrightarrow> step Next w = w \<and> step Previous w = w) \<and>
   (length (tracks w) < 2 \<longrightarrow> step Previous w = w) \<and>
   (2 \<le> length (tracks w) \<and> distinct (map id_track (tracks w)) \<and> i < length (tracks w) \<and>
    currentTrackId w = Some (id_track (tracks w ! i)) \<longrightarrow>
      playNextTrack w =
        handleTrackSelect (id_track (tracks w ! nat ((int i + 1) mod int (length (tracks w))))) w \<and>
      currentTrackId (step Next w) =
        Some (id_track (tracks w ! nat ((int i + 1) mod int (length (tracks w))))) \<and>
      isPlaying (step Next w) \<and>
      playPrevTrack w =
        handleTrackSelect (id_track (tracks w !
          nat ((int i - 1 + int (length (tracks w))) mod int (length (tracks w))))) w \<and>
      currentTrackId (step Previous w) =
        Some (id_track (tracks w !
          nat ((int i - 1 + int (length (tracks w))) mod int (length (tracks w))))) \<and>
      isPlaying (step Previous w))"
proof (intro conjI impI)
  assume "tracks w = []"
  then show "step Next w = w" by (simp add: step_def playNextTrack_def settle_same)
next
  assume "tracks w = []"
  then show "step Previous w = w" by (simp add: step_def playPrevTrack_def settle_same)
next
  assume "length (tracks w) < 2"
  then show "step Previous w = w" by (simp add: step_def playPrevTrack_def settle_same)
next
  assume a: "2 \<le> length (tracks w) \<and> distinct (map id_track (tracks w)) \<and> i < length (tracks w) \<and>
    currentTrackId w = Some (id_track (tracks w ! i))"
  let ?n = "int (length (tracks w))"
  let ?nx = "nat ((int i + 1) mod ?n)"
  let ?pv = "nat ((int i - 1 + ?n) mod ?n)"
  from a have n: "2 \<le> length (tracks w)" and d: "distinct (map id_track (tracks w))"
    and i: "i < length (tracks w)" and c: "currentTrackId w = Some (id_track (tracks w ! i))"
    by simp_all
  have fi: "findIndex (\<lambda>t. Some (id_track t) = currentTrackId w) (tracks w) = int i"
    using findIndex_distinct [OF d i] by (simp add: c)
  have nx: "?nx < length (tracks w)" "?nx \<noteq> i"
    using next_index [OF n i] by simp_all
  have pv: "?pv < length (tracks w)" "?pv \<noteq> i"
    using prev_index [OF n i] by simp_all
  have dn: "Some (id_track (tracks w ! ?nx)) \<noteq> currentTrackId w"
    using nth_eq_iff_index_eq [of "map id_track (tracks w)" ?nx i] d nx i c by simp
  have dp: "Some (id_track (tracks w ! ?pv)) \<noteq> currentTrackId w"
    using nth_eq_iff_index_eq [of "map id_track (tracks w)" ?pv i] d pv i c by simp
  show nxt: "playNextTrack w = handleTrackSelect (id_track (tracks w ! ?nx)) w"
    using next_at [OF n fi] by simp
  show prv: "playPrevTrack w = handleTrackSelect (id_track (tracks w ! ?pv)) w"
    using prev_at [OF n fi] by simp
  show "currentTrackId (step Next w) = Some (id_track (tracks w ! ?nx))"
    using select_other [OF nx(1) dn] by (simp add: step_def nxt)
  show "isPlaying (step Next w)"
    using select_other [OF nx(1) dn] by (simp add: step_def nxt)
  show "currentTrackId (step Previous w) = Some (id_track (tracks w ! ?pv))"
    using select_other [OF pv(1) dp] by (simp add: step_def prv)
  show "isPlaying (step Previous w)"
    using select_other [OF pv(1) dp] by (simp add: step_def prv)
qed

theorem circular_advance_witness:
  "currentTrackId (step Next playingB) = Some 3 \<and>
   currentTrackId (step Next playingC) = Some 1 \<and>
   currentTrackId (step Previous playingB) = Some 1 \<and>
   step Next idleEmpty = idleEmpty \<and>
   step Previous idleEmpty = idleEmpty \<and>
   step Previous playingSolo = playingSolo"
proof -
  have b: "2 \<le> length (tracks playingB) \<and> distinct (map id_track (tracks playingB)) \<and>
      1 < length (tracks playingB) \<and> currentTrackId playingB = Some (id_track (tracks playingB ! 1))"
    by code_simp
  have bn: "id_track (tracks playingB ! nat ((int 1 + 1) mod int (length (tracks playingB)))) = 3"
    by code_simp
  have bp: "id_track (tracks playingB !
      nat ((int 1 - 1 + int (length (tracks playingB))) mod int (length (tracks playingB)))) = 1"
    by code_simp
  have c: "2 \<le> length (tracks playingC) \<and> distinct (map id_track (tracks playingC)) \<and>
      2 < length (tracks playingC) \<and> currentTrackId playingC = Some (id_track (tracks playingC ! 2))"
    by code_simp
  have cn: "id_track (tracks playingC ! nat ((int 2 + 1) mod int (length (tracks playingC)))) = 1"
    by code_simp
  have e: "tracks idleEmpty = []" by code_simp
  have s: "length (tracks playingSolo) < 2" by code_simp
  from circular_advance [of playingB 1] b bn bp
  have 1: "currentTrackId (step Next playingB) = Some 3"
    and 2: "currentTrackId (step Previous playingB) = Some 1" by simp_all
  from circular_advance [of playingC 2] c cn
  have 3: "currentTrackId (step Next playingC) = Some 1" by simp
  from circular_advance [of idleEmpty 0] e
  have 4: "step Next idleEmpty = idleEmpty"
    and 5: "step Previous idleEmpty = idleEmpty" by simp_all
  from circular_advance [of playingSolo 0] s
  have 6: "step Previous playingSolo = playingSolo" by simp
  from 1 2 3 4 5 6 show ?thesis by simp
qed

text \<open>
  C6. When the library holds exactly one track and it is the active one, the end of the
  track sets the position of the audio element to zero and plays it again; the active
  track id and the bound URL are unchanged and the registry sees no call: no URL is
  created and none is revoked.
\<close>

theorem loop_of_one:
  "tracks w = [A] \<Longrightarrow> currentTrackId w = Some (id_track A) \<Longrightarrow> audioRef w = Some a \<Longrightarrow>
   step TrackEnded w = w\<lparr>audioRef := Some (a\<lparr>audio_currentTime := 0, paused := False\<rparr>)\<rparr> \<and>
   currentTrackId (step TrackEnded w) = currentTrackId w \<and>
   currentTrackUrl (step TrackEnded w) = currentTrackUrl w \<and>
   urls (step TrackEnded w) = urls w"
  by (simp add: step_def playNextTrack_def play_def settle_same)

theorem loop_of_one_witness:
  "currentTrackId (step TrackEnded playingSolo) = Some 1 \<and>
   urls (step TrackEnded playingSolo) = urls playingSolo \<and>
   audioRef (step TrackEnded playingSolo) =
     Some \<lparr>src = ''blob:'', audio_currentTime = 0, audio_volume = 3 / 4, paused = False\<rparr>"
proof -
  have t: "tracks playingSolo = [trackA]" by code_simp
  have c: "currentTrackId playingSolo = Some (id_track trackA)" by code_simp
  have a: "audioRef playingSolo =
      Some \<lparr>src = ''blob:'', audio_currentTime = 0, audio_volume = 3 / 4, paused = False\<rparr>"
    by code_simp
  have i: "id_track trackA = 1" by (simp add: trackA_def)
  from loop_of_one [OF t c a] show ?thesis by (simp add: c i)
qed

text \<open>
  C7. Deleting the active track \<open>X\<close>, whatever \<open>isPlaying\<close> is and whatever the store
  answers, leaves the coordinator idle: \<open>isPlaying\<close> is false, \<open>currentTrackId\<close> is null,
  the bound URL is revoked and cleared so that no URL is live, and the audio element has
  an empty source and is paused. When the store accepts the delete, neither the store nor
  the in-memory library holds a record with the id of \<open>X\<close> afterwards.
\<close>

theorem delete_active_resets_to_idle:
  assumes "consistent w" and "currentTrackId w = Some X"
  shows "isPlaying (step (DeleteTrack X oc) w) = False \<and>
         currentTrackId (step (DeleteTrack X oc) w) = None \<and>
         currentTrackUrl (step (DeleteTrack X oc) w) = '''' \<and>
         currentTrackUrl w \<noteq> '''' \<and>
         Revoked (currentTrackUrl w) \<in> set (events (urls (step (DeleteTrack X oc) w))) \<and>
         liveAfter (events (urls (step (DeleteTrack X oc) w))) = [] \<and>
         audioRef (step (DeleteTrack X oc) w) =
           map_option (\<lambda>a. a\<lparr>src := '''', paused := True\<rparr>) (audioRef w) \<and>
         (oc = Accept \<longrightarrow>
            fst (handleTrackDelete oc X w) = Resolved \<and>
            X \<notin> id_track ` set (tracks (step (DeleteTrack X oc) w)) \<and>
            X \<notin> id_track ` set (rows (db (step (DeleteTrack X oc) w))))"
proof -
  from assms have url: "currentTrackUrl w \<noteq> ''''" and
    live: "set (liveAfter (events (urls w))) \<subseteq> {currentTrackUrl w}"
    by (auto simp: consistent_def)
  let ?h = "snd (handleTrackDelete oc X w)"
  have h: "isPlaying ?h = False" "currentTrackId ?h = None" "currentTrackUrl ?h = ''''"
    "events (urls ?h) = Revoked (currentTrackUrl w) # events (urls w)"
    "audioRef ?h = map_option (\<lambda>a. a\<lparr>src := ''''\<rparr>) (audioRef w)"
    "volume ?h = volume w"
    using assms(2) url
    by (cases oc; simp add: handleTrackDelete_def deleteTrackFromDB_def Let_def revokeObjectURL_def)+
  have s: "step (DeleteTrack X oc) w = settle w ?h" by (simp add: step_def)
  have ev: "events (urls (settle w ?h)) = Revoked (currentTrackUrl w) # Revoked (currentTrackUrl w) # events (urls w)"
    using h url by (simp add: settle_def effectPlaying_def effectUrl_def effectVolume_def
        cleanupUrl_def revokeObjectURL_def)
  have au: "audioRef (settle w ?h) = map_option (\<lambda>a. a\<lparr>src := '''', paused := True\<rparr>) (audioRef w)"
    using h url assms(2) by (cases "audioRef w")
      (simp_all add: settle_def effectPlaying_def effectUrl_def effectVolume_def
        cleanupUrl_def pause_def)
  have c1: "isPlaying (step (DeleteTrack X oc) w) = False" using h(1) by (simp add: s)
  have c2: "currentTrackId (step (DeleteTrack X oc) w) = None" using h(2) by (simp add: s)
  have c3: "currentTrackUrl (step (DeleteTrack X oc) w) = ''''" using h(3) by (simp add: s)
  have c4: "Revoked (currentTrackUrl w) \<in> set (events (urls (step (DeleteTrack X oc) w)))"
    using ev by (simp add: s)
  have c5: "liveAfter (events (urls (step (DeleteTrack X oc) w))) = []"
    using ev live by (simp add: s removeAll_only)
  have c6: "audioRef (step (DeleteTrack X oc) w) =
      map_option (\<lambda>a. a\<lparr>src := '''', paused := True\<rparr>) (audioRef w)"
    using au by (simp add: s)
  have c7: "oc = Accept \<longrightarrow>
      fst (handleTrackDelete oc X w) = Resolved \<and>
      X \<notin> id_track ` set (tracks (step (DeleteTrack X oc) w)) \<and>
      X \<notin> id_track ` set (rows (db (step (DeleteTrack X oc) w)))"
    by (auto simp: step_def handleTrackDelete_def deleteTrackFromDB_def Let_def)
  show ?thesis by (intro conjI; fact)
qed

theorem delete_active_witness:
  "currentTrackId (step (DeleteTrack 2 Accept) playingB) = None \<and>
   isPlaying (step (DeleteTrack 2 Accept) playingB) = False \<and>
   liveAfter (events (urls (step (DeleteTrack 2 Accept) playingB))) = [] \<and>
   2 \<notin> id_track ` set (tracks (step (DeleteTrack 2 Accept) playingB)) \<and>
   2 \<notin> id_track ` set (rows (db (step (DeleteTrack 2 Accept) playingB)))"
proof -
  have c: "consistent playingB"
    unfolding playingB_def idle_def by (rule consistent_run [OF consistent_mount])
  have a: "currentTrackId playingB = Some 2" by code_simp
  from delete_active_resets_to_idle [OF c a, of Accept] show ?thesis by simp
qed

text \<open>
  C8. Selecting the track \<open>X\<close> of the library that is already active is the same as
  toggling play and pause, on the whole state and after the effects as well: nothing but
  \<open>isPlaying\<close> changes in the handler, the registry sees no call, the active id and the
  bound URL stay, and \<open>isPlaying\<close> is flipped (for an id other than \<open>0\<close>, which
  \<open>handlePlayPause\<close> takes for no track).
\<close>

theorem select_active_is_toggle:
  assumes "currentTrackId w = Some X" and "X \<in> id_track ` set (tracks w)"
  shows "handleTrackSelect X w = handlePlayPause w \<and>
         step (SelectTrack X) w = step TogglePlayPause w \<and>
         handleTrackSelect X w = w\<lparr>isPlaying := isPlaying (handleTrackSelect X w)\<rparr> \<and>
         urls (step (SelectTrack X) w) = urls w \<and>
         currentTrackId (step (SelectTrack X) w) = Some X \<and>
         currentTrackUrl (step (SelectTrack X) w) = currentTrackUrl w \<and>
         (X \<noteq> 0 \<longrightarrow> isPlaying (step (SelectTrack X) w) = (\<not> isPlaying w))"
proof -
  from find_present [OF assms(2)] obtain t
    where t: "find (\<lambda>t. id_track t = X) (tracks w) = Some t" "id_track t = X" by blast
  have eq: "handleTrackSelect X w = handlePlayPause w"
    using t assms(1) by (simp add: handleTrackSelect_def)
  have u: "urls (settle w (handlePlayPause w)) = urls w"
    by (simp add: settle_def effectPlaying_def effectUrl_def effectVolume_def cleanupUrl_def
        handlePlayPause_def)
  show ?thesis
    using assms(1) u by (simp add: eq step_def) (simp add: handlePlayPause_def)
qed

theorem select_active_witness:
  "step (SelectTrack 2) playingB = step TogglePlayPause playingB \<and>
   isPlaying (step (SelectTrack 2) playingB) = False \<and>
   urls (step (SelectTrack 2) playingB) = urls playingB"
proof -
  have a: "currentTrackId playingB = Some 2" by code_simp
  have b: "2 \<in> id_track ` set (tracks playingB)" by code_simp
  have p: "isPlaying playingB" by code_simp
  have nz: "(2::int) \<noteq> 0" by simp
  from select_active_is_toggle [OF a b] p nz show ?thesis by blast
qed

text \<open>
  C9. For a track of the library, with \<open>orig\<close> the record found for the id of the patch,
  an edit leaves \<open>id\<close>, \<open>name\<close> and \<open>file\<close> of the record as they were, whatever the store
  answers, and leaves the tracks with another id alone. When the store accepts the
  update, the record in the library and the row in the store are \<open>orig\<close> with each
  patched field replaced and each unpatched optional field kept, absent ones staying
  absent, and the ids of the library are unchanged.
\<close>

theorem edit_preserves_untouched_fields:
  assumes "find (\<lambda>t. id_track t = patch_id p) (tracks w) = Some orig"
  shows "(find (\<lambda>t. id_track t = patch_id p) (tracks (step (EditTrack p oc) w)) = Some t' \<longrightarrow>
            id_track t' = id_track orig \<and> name t' = name orig \<and> file_track t' = file_track orig) \<and>
         (oc = Accept \<longrightarrow>
            find (\<lambda>t. id_track t = patch_id p) (tracks (step (EditTrack p oc) w)) =
              Some (orig\<lparr>coverArt := (case patch_coverArt p of Some b \<Rightarrow> Some b | None \<Rightarrow> coverArt orig),
                         video := (case patch_video p of Some b \<Rightarrow> Some b | None \<Rightarrow> video orig)\<rparr>) \<and>
            find (\<lambda>t. id_track t = patch_id p) (rows (db (step (EditTrack p oc) w))) =
              Some (orig\<lparr>coverArt := (case patch_coverArt p of Some b \<Rightarrow> Some b | None \<Rightarrow> coverArt orig),
                         video := (case patch_video p of Some b \<Rightarrow> Some b | None \<Rightarrow> video orig)\<rparr>) \<and>
            map id_track (tracks (step (EditTrack p oc) w)) = map id_track (tracks w)) \<and>
         filter (\<lambda>t. id_track t \<noteq> patch_id p) (tracks (step (EditTrack p oc) w)) =
           filter (\<lambda>t. id_track t \<noteq> patch_id p) (tracks w)"
proof -
  let ?new = "orig\<lparr>coverArt := orElse (patch_coverArt p) (coverArt orig),
                     video := orElse (patch_video p) (video orig)\<rparr>"
  have oe: "\<And>a b. orElse a b = (case a of Some x \<Rightarrow> Some x | None \<Rightarrow> b)"
    by (simp split: option.splits)
  have idn: "id_track ?new = patch_id p" using find_id [OF assms] by simp
  have rej: "tracks (step (EditTrack p Reject) w) = tracks w"
    using assms by (simp add: step_def handleEditorSave_def updateTrackInDB_def Let_def)
  have acc: "tracks (step (EditTrack p Accept) w) =
      map (\<lambda>t. if id_track t = patch_id p then ?new else t) (tracks w)"
    using assms by (simp add: step_def handleEditorSave_def updateTrackInDB_def Let_def)
  have accdb: "rows (db (step (EditTrack p Accept) w)) = putRow ?new (rows (db w))"
    using assms by (simp add: step_def handleEditorSave_def updateTrackInDB_def Let_def)
  have f1: "find (\<lambda>t. id_track t = patch_id p) (tracks (step (EditTrack p Accept) w)) = Some ?new"
    unfolding acc using find_map_replace [OF assms idn] .
  have f2: "find (\<lambda>t. id_track t = patch_id p) (rows (db (step (EditTrack p Accept) w))) = Some ?new"
    unfolding accdb using find_putRow [of ?new "rows (db w)"] by (simp only: idn)
  have ids: "map id_track (tracks (step (EditTrack p Accept) w)) = map id_track (tracks w)"
    unfolding acc using map_replace_ids [OF idn] .
  have oth: "filter (\<lambda>t. id_track t \<noteq> patch_id p) (tracks (step (EditTrack p Accept) w)) =
      filter (\<lambda>t. id_track t \<noteq> patch_id p) (tracks w)"
    unfolding acc using filter_map_replace [OF idn] .
  show ?thesis
  proof (cases oc)
    case Accept
    with f1 f2 ids oth show ?thesis by (auto simp: oe)
  next
    case Reject
    with rej assms show ?thesis by auto
  qed
qed

theorem edit_preserves_witness:
  "find (\<lambda>t. id_track t = 1) (tracks (step (EditTrack artPatch Accept) idle)) =
     Some \<lparr>id_track = 1, name = ''a'', file_track = File ''a.mp3'' ''A'',
           coverArt = Some (File ''art.png'' ''P''), video = None\<rparr>"
proof -
  have f: "find (\<lambda>t. id_track t = patch_id artPatch) (tracks idle) = Some trackA"
    by code_simp
  have g: "find (\<lambda>t. id_track t = patch_id artPatch)
      (tracks (step (EditTrack artPatch Accept) idle)) =
    Some (trackA\<lparr>coverArt := (case patch_coverArt artPatch of Some b \<Rightarrow> Some b | None \<Rightarrow> coverArt trackA),
                  video := (case patch_video artPatch of Some b \<Rightarrow> Some b | None \<Rightarrow> video trackA)\<rparr>)"
    using edit_preserves_untouched_fields [OF f, where oc = Accept and t' = trackA] by blast
  have v: "trackA\<lparr>coverArt := (case patch_coverArt artPatch of Some b \<Rightarrow> Some b | None \<Rightarrow> coverArt trackA),
                  video := (case patch_video artPatch of Some b \<Rightarrow> Some b | None \<Rightarrow> video trackA)\<rparr> =
     \<lparr>id_track = 1, name = ''a'', file_track = File ''a.mp3'' ''A'',
           coverArt = Some (File ''art.png'' ''P''), video = None\<rparr>"
    by (simp add: artPatch_def trackA_def)
  have p: "patch_id artPatch = 1" by (simp add: artPatch_def)
  from g show ?thesis unfolding v p .
qed

text \<open>
  C10. In a library of at least two tracks none of which is active (\<open>currentTrackId\<close> is
  null or the id of no track), next selects the track at index \<open>0\<close> and previous selects
  the track at index \<open>count - 2\<close>.
\<close>

theorem advance_without_active_track:
  assumes n: "2 \<le> length (tracks w)"
    and u: "\<forall>t\<in>set (tracks w). Some (id_track t) \<noteq> currentTrackId w"
  shows "playNextTrack w = handleTrackSelect (id_track (tracks w ! 0)) w \<and>
         currentTrackId (step Next w) = Some (id_track (tracks w ! 0)) \<and>
         playPrevTrack w = handleTrackSelect (id_track (tracks w ! (length (tracks w) - 2))) w \<and>
         currentTrackId (step Previous w) = Some (id_track (tracks w ! (length (tracks w) - 2)))"
proof -
  have fi: "findIndex (\<lambda>t. Some (id_track t) = currentTrackId w) (tracks w) = - 1"
    using u by (intro findIndex_none) simp
  have nxt: "playNextTrack w = handleTrackSelect (id_track (tracks w ! 0)) w"
    using next_at [OF n fi] by simp
  have prv: "playPrevTrack w = handleTrackSelect (id_track (tracks w ! (length (tracks w) - 2))) w"
    using prev_at [OF n fi] unset_prev [OF n] by simp
  have z: "0 < length (tracks w)" "length (tracks w) - 2 < length (tracks w)" using n by auto
  have d0: "Some (id_track (tracks w ! 0)) \<noteq> currentTrackId w"
    using u z(1) nth_mem by blast
  have d2: "Some (id_track (tracks w ! (length (tracks w) - 2))) \<noteq> currentTrackId w"
    using u z(2) nth_mem by blast
  show ?thesis
    using select_other [OF z(1) d0] select_other [OF z(2) d2]
    by (simp add: step_def nxt prv)
qed

theorem advance_without_active_witness:
  "currentTrackId (step Next idle) = Some 1 \<and>
   currentTrackId (step Previous idle) = Some 2"
proof -
  have n: "2 \<le> length (tracks idle)" by code_simp
  have u: "\<forall>t\<in>set (tracks idle).
      Some (id_track t) \<noteq> currentTrackId idle" by code_simp
  have i: "id_track (tracks idle ! 0) = 1"
    "id_track (tracks idle ! (length (tracks idle) - 2)) = 2"
    by code_simp+
  from advance_without_active_track [OF n u] show ?thesis by (simp add: i)
qed

end
